theory Spec2Isabelle
  imports Main "HOL-Library.Sublist"
begin

unbundle bit_operations_syntax

section \<open>Generic RPC and action execution (op_generic.c)\<close>

text \<open>
  The file \<^verbatim>\<open>src/server/op_generic.c\<close> holds two functions:
  \<^verbatim>\<open>build_rpc_act_from_output\<close>, which inserts the values returned by sysrepo into a
  libyang data tree and adjusts the default flags of the nodes around each inserted node,
  and \<^verbatim>\<open>op_generic\<close>, which turns the input of an RPC or action into sysrepo values,
  sends them, and builds the NETCONF reply.

  libyang and sysrepo are libraries outside the repository. Their data structures are
  modelled as far as the two functions read or write them; their functions are either
  modelled by what the source relies on (duplicating and freeing a tree, the descendants
  of a node) or taken as parameters in the record \<open>env\<close> (creating a path, validation,
  the call to sysrepo, the conversion helpers of the repository that are not in this file).
\<close>

subsection \<open>Schema nodes\<close>

text \<open>
  The values of the enumeration \<^verbatim>\<open>LYS_NODE\<close> are those of libyang's
  \<^verbatim>\<open>tree_schema.h\<close>; the source tests them by equality and by a bit mask.
\<close>

datatype LYS_NODE =
    LYS_UNKNOWN | LYS_CONTAINER | LYS_CHOICE | LYS_LEAF | LYS_LEAFLIST | LYS_LIST
  | LYS_ANYXML | LYS_CASE | LYS_NOTIF | LYS_RPC | LYS_INPUT | LYS_OUTPUT | LYS_GROUPING
  | LYS_USES | LYS_AUGMENT | LYS_ACTION | LYS_ANYDATA

fun lys_bits :: "LYS_NODE \<Rightarrow> int" where
  "lys_bits LYS_UNKNOWN = 0x0000"
| "lys_bits LYS_CONTAINER = 0x0001"
| "lys_bits LYS_CHOICE = 0x0002"
| "lys_bits LYS_LEAF = 0x0004"
| "lys_bits LYS_LEAFLIST = 0x0008"
| "lys_bits LYS_LIST = 0x0010"
| "lys_bits LYS_ANYXML = 0x0020"
| "lys_bits LYS_CASE = 0x0040"
| "lys_bits LYS_NOTIF = 0x0080"
| "lys_bits LYS_RPC = 0x0100"
| "lys_bits LYS_INPUT = 0x0200"
| "lys_bits LYS_OUTPUT = 0x0400"
| "lys_bits LYS_GROUPING = 0x0800"
| "lys_bits LYS_USES = 0x1000"
| "lys_bits LYS_AUGMENT = 0x2000"
| "lys_bits LYS_ACTION = 0x4000"
| "lys_bits LYS_ANYDATA = 0x8020"

text \<open>
  \<^verbatim>\<open>struct lys_node\<close> with the two fields that the source reads through a cast:
  \<^verbatim>\<open>presence\<close> of \<^verbatim>\<open>struct lys_node_container\<close> (a string or NULL) and
  \<^verbatim>\<open>keys_size\<close> of \<^verbatim>\<open>struct lys_node_list\<close>.
\<close>

record lys_node =
  name :: string
  nodetype :: LYS_NODE
  presence :: "string option"
  keys_size :: nat

subsection \<open>Data trees\<close>

text \<open>
  \<^verbatim>\<open>struct lyd_node\<close>: the schema node, the default flag, the value of a leaf and the
  children in document order. The C structure links a node to its parent and to its first
  child; here a node of a tree is addressed by its position, the list of child indices
  leading to it from the root, so that \<^verbatim>\<open>iter->parent\<close> is the position without its last
  index (NULL at the root) and \<^verbatim>\<open>iter->child\<close> is the position extended by index 0
  (NULL when there is no child).
\<close>

datatype lyd_node =
  Lyd_node (schema: lys_node) (dflt: bool) (value_str: string) (children: "lyd_node list")

type_synonym pos = "nat list"

fun lyd_at :: "lyd_node \<Rightarrow> pos \<Rightarrow> lyd_node option" where
  "lyd_at t [] = Some t"
| "lyd_at (Lyd_node s d v cs) (i # p) = (if i < length cs then lyd_at (cs ! i) p else None)"

fun set_dflt :: "lyd_node \<Rightarrow> pos \<Rightarrow> bool \<Rightarrow> lyd_node" where
  "set_dflt (Lyd_node s d v cs) [] b = Lyd_node s b v cs"
| "set_dflt (Lyd_node s d v cs) (i # p) b =
     (if i < length cs then Lyd_node s d v (cs[i := set_dflt (cs ! i) p b])
      else Lyd_node s d v cs)"

definition dflt_at :: "lyd_node \<Rightarrow> pos \<Rightarrow> bool" where
  "dflt_at t p = (case lyd_at t p of None \<Rightarrow> False | Some n \<Rightarrow> dflt n)"

definition schema_at :: "lyd_node \<Rightarrow> pos \<Rightarrow> lys_node option" where
  "schema_at t p = map_option schema (lyd_at t p)"

text \<open>The tree without its default flags, for stating what a walk leaves as it was.\<close>

fun shape :: "lyd_node \<Rightarrow> lyd_node" where
  "shape (Lyd_node s d v cs) = Lyd_node s False v (map shape cs)"

definition parent :: "pos \<Rightarrow> pos option" where
  "parent p = (if p = [] then None else Some (butlast p))"

subsection \<open>Propagation of the default flag (build_rpc_act_from_output, lines 47-74)\<close>

text \<open>
  \<^verbatim>\<open>iter->schema->nodetype & (LYS_LEAF | LYS_LEAFLIST | LYS_ANYXML)\<close>
\<close>

definition is_term :: "lys_node \<Rightarrow> bool" where
  "is_term s \<longleftrightarrow>
     lys_bits (nodetype s) AND (lys_bits LYS_LEAF OR lys_bits LYS_LEAFLIST OR lys_bits LYS_ANYXML) \<noteq> 0"

text \<open>The two tests that end the walk upwards: a presence container, a list with keys.\<close>

definition presence_container :: "lys_node \<Rightarrow> bool" where
  "presence_container s \<longleftrightarrow> nodetype s = LYS_CONTAINER \<and> presence s \<noteq> None"

definition list_with_keys :: "lys_node \<Rightarrow> bool" where
  "list_with_keys s \<longleftrightarrow> nodetype s = LYS_LIST \<and> keys_size s \<noteq> 0"

definition boundary_at :: "lyd_node \<Rightarrow> pos \<Rightarrow> bool" where
  "boundary_at t p =
     (case schema_at t p of None \<Rightarrow> False
      | Some s \<Rightarrow> presence_container s \<or> list_with_keys s)"

text \<open>
  The walk downwards, \<^verbatim>\<open>for (iter = node; !(...) && iter->child; iter = iter->child);\<close>,
  as the indices followed below the node it starts from.
\<close>

fun go_down_from :: "lyd_node \<Rightarrow> pos" where
  "go_down_from (Lyd_node s d v []) = []"
| "go_down_from (Lyd_node s d v (c # cs)) = (if is_term s then [] else 0 # go_down_from c)"

definition go_down :: "lyd_node \<Rightarrow> pos \<Rightarrow> pos" where
  "go_down t node = (case lyd_at t node of None \<Rightarrow> node | Some n \<Rightarrow> node @ go_down_from n)"

text \<open>
  The walk upwards, \<^verbatim>\<open>for (; ; iter = iter->parent)\<close>. It starts at the end of the walk
  downwards, so \<open>node\<close> is reached before the root is left (lemma \<open>go_down_prefix\<close>);
  the branch for a NULL parent is there to make the function total.
\<close>

function go_up :: "lyd_node \<Rightarrow> pos \<Rightarrow> pos \<Rightarrow> lyd_node" where
  "go_up t iter node =
     (case schema_at t iter of
        None \<Rightarrow> t
      | Some s \<Rightarrow>
          if presence_container s then t
          else if list_with_keys s then t
          else (let t' = set_dflt t iter True in
                if iter = node then t'
                else (case parent iter of None \<Rightarrow> t' | Some p \<Rightarrow> go_up t' p node)))"
  by pat_completeness auto
termination
  by (relation "measure (\<lambda>(t, iter, node). length iter)")
     (auto simp: parent_def split: if_splits)

text \<open>
  \<^verbatim>\<open>for (iter = node->parent; iter && iter->dflt; iter = iter->parent) iter->dflt = 0;\<close>
\<close>

function go_up_clear :: "lyd_node \<Rightarrow> pos option \<Rightarrow> lyd_node" where
  "go_up_clear t None = t"
| "go_up_clear t (Some iter) =
     (if dflt_at t iter then go_up_clear (set_dflt t iter False) (parent iter) else t)"
  by pat_completeness auto
termination
  by (relation "measure (\<lambda>(t, it). case it of None \<Rightarrow> 0 | Some p \<Rightarrow> Suc (length p))")
     (auto simp: parent_def split: if_splits)

text \<open>
  The body of \<^verbatim>\<open>if (node) { ... }\<close>: \<open>node\<close> is the node that \<^verbatim>\<open>lyd_new_path\<close>
  returned and \<open>d\<close> is \<^verbatim>\<open>output[i].dflt\<close>.
\<close>

definition propagate_dflt :: "lyd_node \<Rightarrow> pos \<Rightarrow> bool \<Rightarrow> lyd_node" where
  "propagate_dflt t node d =
     (if d then go_up t (go_down t node) node
      else go_up_clear t (parent node))"


subsection \<open>Values of sysrepo, replies of the NETCONF server\<close>

text \<open>
  \<^verbatim>\<open>sr_val_t\<close> with the fields the source reads. A record of the array that
  \<^verbatim>\<open>calloc\<close> returns is all zero: no path, the first enumerator as type, flag clear.
\<close>

datatype sr_type_t =
    SR_UNKNOWN_T | SR_LIST_T | SR_CONTAINER_T | SR_CONTAINER_PRESENCE_T | SR_LEAF_EMPTY_T
  | SR_NOTIFICATION_T | SR_BINARY_T | SR_BITS_T | SR_BOOL_T | SR_DECIMAL64_T | SR_ENUM_T
  | SR_IDENTITYREF_T | SR_INSTANCEID_T | SR_INT8_T | SR_INT16_T | SR_INT32_T | SR_INT64_T
  | SR_STRING_T | SR_UINT8_T | SR_UINT16_T | SR_UINT32_T | SR_UINT64_T | SR_ANYXML_T
  | SR_ANYDATA_T

record sr_val_t =
  sr_xpath :: "string option"
  sr_type :: sr_type_t
  sr_dflt :: bool
  sr_data :: string

definition sr_val_zero :: sr_val_t where
  "sr_val_zero = \<lparr>sr_xpath = None, sr_type = SR_UNKNOWN_T, sr_dflt = False, sr_data = []\<rparr>"

datatype sr_error_t =
    SR_ERR_OK | SR_ERR_INVAL_ARG | SR_ERR_NOMEM | SR_ERR_NOT_FOUND | SR_ERR_INTERNAL
  | SR_ERR_UNSUPPORTED | SR_ERR_UNKNOWN_MODEL | SR_ERR_BAD_ELEMENT
  | SR_ERR_VALIDATION_FAILED | SR_ERR_OPERATION_FAILED | SR_ERR_UNAUTHORIZED

datatype sr_datastore_t = SR_DS_STARTUP | SR_DS_RUNNING | SR_DS_CANDIDATE

datatype LYD_ANYDATA_VALUETYPE = LYD_ANYDATA_CONSTSTRING | LYD_ANYDATA_SXML

datatype NC_WD_MODE = NC_WD_UNKNOWN | NC_WD_ALL | NC_WD_ALL_TAG | NC_WD_TRIM | NC_WD_EXPLICIT

datatype NC_ERR = NC_ERR_OP_NOT_SUPPORTED | NC_ERR_OP_FAILED

datatype NC_ERR_TYPE = NC_ERR_TYPE_PROT | NC_ERR_TYPE_APP

text \<open>
  An error built by \<^verbatim>\<open>nc_err\<close>; \<^verbatim>\<open>nc_err_set_msg\<close> fills the message.
\<close>

record nc_server_error =
  err_tag :: NC_ERR
  err_type :: NC_ERR_TYPE
  err_message :: "string option"

definition nc_err :: "NC_ERR \<Rightarrow> NC_ERR_TYPE \<Rightarrow> nc_server_error" where
  "nc_err tag ty = \<lparr>err_tag = tag, err_type = ty, err_message = None\<rparr>"

definition nc_err_set_msg :: "nc_server_error \<Rightarrow> string \<Rightarrow> nc_server_error" where
  "nc_err_set_msg e msg = e\<lparr>err_message := Some msg\<rparr>"

subsection \<open>The store of data trees\<close>

text \<open>
  Every tree that \<^verbatim>\<open>lyd_dup\<close> allocates lives in a cell of the store until it is freed;
  a pointer to a node is a cell and a position in the tree of that cell. A new tree takes
  the next cell, a freed cell holds nothing. \<open>ds\<close> is \<^verbatim>\<open>sessions->ds\<close>.
\<close>

type_synonym lyd_ptr = "nat \<times> pos"

text \<open>
  A call of \<^verbatim>\<open>sr_rpc_send\<close> or \<^verbatim>\<open>sr_action_send\<close>: which of the two, the path, the
  records passed (the \<open>in_count\<close> first records of \<open>input\<close>) and the code returned.
  The calls made are kept in \<open>sent\<close>, to state what the backend was handed.
\<close>

record sr_call =
  call_action :: bool
  call_xpath :: string
  call_input :: "sr_val_t list"
  call_rc :: sr_error_t

record state =
  heap :: "lyd_node option list"
  ds :: sr_datastore_t
  sent :: "sr_call list"

text \<open>
  The replies: \<^verbatim>\<open>nc_server_reply_ok\<close>, \<^verbatim>\<open>nc_server_reply_data\<close> with the tree handed
  over, \<^verbatim>\<open>nc_server_reply_err\<close>, and the reply of \<^verbatim>\<open>op_build_err_sr\<close> (below).
\<close>

datatype nc_server_reply =
    NC_RPL_OK
  | NC_RPL_DATA nat NC_WD_MODE
  | NC_RPL_ERROR nc_server_error
  | NC_RPL_BACKEND_ERROR string

definition heap_at :: "state \<Rightarrow> nat \<Rightarrow> lyd_node option" where
  "heap_at st c = (if c < length (heap st) then heap st ! c else None)"

definition node_at :: "state \<Rightarrow> lyd_ptr \<Rightarrow> lyd_node option" where
  "node_at st ptr = (case heap_at st (fst ptr) of None \<Rightarrow> None | Some t \<Rightarrow> lyd_at t (snd ptr))"

definition heap_alloc :: "lyd_node \<Rightarrow> state \<Rightarrow> nat \<times> state" where
  "heap_alloc t st = (length (heap st), st\<lparr>heap := heap st @ [Some t]\<rparr>)"

definition heap_put :: "nat \<Rightarrow> lyd_node \<Rightarrow> state \<Rightarrow> state" where
  "heap_put c t st = st\<lparr>heap := (heap st)[c := Some t]\<rparr>"

text \<open>\<^verbatim>\<open>lyd_free\<close> of the root of a tree.\<close>

definition lyd_free :: "nat \<Rightarrow> state \<Rightarrow> state" where
  "lyd_free c st = st\<lparr>heap := (heap st)[c := None]\<rparr>"

text \<open>
  \<^verbatim>\<open>lyd_dup(node, recursive)\<close>: the node with its subtree, or the node alone.
\<close>

definition lyd_dup :: "lyd_node \<Rightarrow> bool \<Rightarrow> lyd_node" where
  "lyd_dup n recursive =
     (if recursive then n else Lyd_node (schema n) (dflt n) (value_str n) [])"

text \<open>
  \<^verbatim>\<open>lyd_free_withsiblings(rpc->child)\<close>: the node at the position loses all its children.
\<close>

fun free_children :: "lyd_node \<Rightarrow> pos \<Rightarrow> lyd_node" where
  "free_children (Lyd_node s d v cs) [] = Lyd_node s d v []"
| "free_children (Lyd_node s d v cs) (i # p) =
     (if i < length cs then Lyd_node s d v (cs[i := free_children (cs ! i) p])
      else Lyd_node s d v cs)"

text \<open>
  The positions of a tree in document order, the root first. \<^verbatim>\<open>lyd_find_path(rpc, ".//*")\<close>
  is the set of all descendants of \<open>rpc\<close>.
\<close>

fun positions :: "lyd_node \<Rightarrow> pos list"
  and positions_from :: "nat \<Rightarrow> lyd_node list \<Rightarrow> pos list" where
  "positions (Lyd_node s d v cs) = [] # positions_from 0 cs"
| "positions_from i [] = []"
| "positions_from i (c # cs) = map ((#) i) (positions c) @ positions_from (Suc i) cs"

definition lyd_find_path_descendants :: "lyd_node \<Rightarrow> pos \<Rightarrow> pos list" where
  "lyd_find_path_descendants t rpc =
     (case lyd_at t rpc of None \<Rightarrow> []
      | Some n \<Rightarrow> map ((@) rpc) (positions_from 0 (children n)))"

text \<open>
  Modelled from the spec: the macros \<^verbatim>\<open>LY_TREE_DFS_BEGIN\<close> and \<^verbatim>\<open>LY_TREE_DFS_END\<close> are
  not in the source file; the action is "identified by depth-first search for the first
  node whose schema kind is action", and there is none when the search ends without one.
\<close>

definition dfs_action :: "lyd_node \<Rightarrow> pos option" where
  "dfs_action act =
     find (\<lambda>p. map_option nodetype (schema_at act p) = Some LYS_ACTION) (positions act)"

subsection \<open>What the two functions call\<close>

text \<open>
  The functions of libyang and sysrepo that are not modelled above, the helpers of the
  repository that are defined in other files (\<^verbatim>\<open>op_set_srval\<close>, \<^verbatim>\<open>op_get_srval\<close>,
  \<^verbatim>\<open>np2log_lasterr\<close>) and the outcome of the two allocations that the source tests.

  \<^item> \<open>lyd_path t p\<close> is the path of the node at \<open>p\<close> in \<open>t\<close>.
  \<^item> \<open>lyd_new_path t rpc_act xpath value anytype\<close> returns the tree after the call, the
    node returned (or NULL) and whether \<^verbatim>\<open>ly_errno\<close> is set. The context and the options,
    \<^verbatim>\<open>LYD_PATH_OPT_UPDATE | LYD_PATH_OPT_OUTPUT\<close>, are the same in every call.
  \<^item> \<open>lyd_validate t rpc_act\<close> returns the tree after validation and whether the
    result is not zero.
  \<^item> \<open>op_set_srval n path\<close> returns the value and the additional string, or nothing
    when the result is not zero.
  \<^item> \<open>sr_rpc_send\<close> and \<open>sr_action_send\<close> get the path and the \<open>in_count\<close> first
    records of \<open>input\<close>, and return the code and the output values.
\<close>

record env =
  lyd_path :: "lyd_node \<Rightarrow> pos \<Rightarrow> string"
  lyd_new_path ::
    "lyd_node \<Rightarrow> pos \<Rightarrow> string option \<Rightarrow> string \<Rightarrow> LYD_ANYDATA_VALUETYPE \<Rightarrow>
     lyd_node \<times> pos option \<times> bool"
  lyd_validate :: "lyd_node \<Rightarrow> pos \<Rightarrow> lyd_node \<times> bool"
  op_set_srval :: "lyd_node \<Rightarrow> string \<Rightarrow> (sr_val_t \<times> string option) option"
  op_get_srval :: "sr_val_t \<Rightarrow> string"
  sr_rpc_send :: "string \<Rightarrow> sr_val_t list \<Rightarrow> sr_error_t \<times> sr_val_t list"
  sr_action_send :: "string \<Rightarrow> sr_val_t list \<Rightarrow> sr_error_t \<times> sr_val_t list"
  sr_last_error :: string
  np2log_lasterr :: string
  nc_wd :: NC_WD_MODE
  lyd_dup_fails :: bool
  calloc_fails :: bool

text \<open>
  Modelled from the spec: \<^verbatim>\<open>op_build_err_sr\<close> is defined in another file of the
  repository. A failure of the backend is "surfaced as backend-error carrying backend
  diagnostic text"; the text is the last error of the sysrepo session.
\<close>

definition op_build_err_sr :: "env \<Rightarrow> nc_server_reply" where
  "op_build_err_sr e = NC_RPL_BACKEND_ERROR (sr_last_error e)"

subsection \<open>build_rpc_act_from_output\<close>

text \<open>
  The fifth argument of \<^verbatim>\<open>lyd_new_path\<close>:
  \<^verbatim>\<open>(output->type == SR_ANYXML_T || output->type == SR_ANYDATA_T) ? LYD_ANYDATA_SXML : 0\<close>,
  where \<^verbatim>\<open>output->type\<close> is the type of the first record of the array.
\<close>

definition anydata_valuetype :: "sr_val_t list \<Rightarrow> LYD_ANYDATA_VALUETYPE" where
  "anydata_valuetype output =
     (case output of
        [] \<Rightarrow> LYD_ANYDATA_CONSTSTRING
      | out0 # _ \<Rightarrow>
          if sr_type out0 = SR_ANYXML_T \<or> sr_type out0 = SR_ANYDATA_T then LYD_ANYDATA_SXML
          else LYD_ANYDATA_CONSTSTRING)"

text \<open>
  One turn of the loop (lines 39-74) for the record \<open>i\<close>: the tree after it, and whether
  the function returns -1 there. The counter of the loop is a \<^verbatim>\<open>uint32_t\<close> and
  \<open>out_count\<close> a \<^verbatim>\<open>size_t\<close>; the model is of arrays shorter than 4294967296 records,
  for which the counter does not wrap.
\<close>

definition build_step :: "env \<Rightarrow> sr_val_t list \<Rightarrow> pos \<Rightarrow> nat \<Rightarrow> lyd_node \<Rightarrow> lyd_node \<times> bool" where
  "build_step e output rpc_act i t =
     (case lyd_new_path e t rpc_act (sr_xpath (output ! i)) (op_get_srval e (output ! i))
             (anydata_valuetype output) of
        (t', node, ly_errno) \<Rightarrow>
          if ly_errno then (t', True)
          else (case node of
                  None \<Rightarrow> (t', False)
                | Some n \<Rightarrow> (propagate_dflt t' n (sr_dflt (output ! i)), False)))"

function build_loop :: "env \<Rightarrow> sr_val_t list \<Rightarrow> pos \<Rightarrow> nat \<Rightarrow> lyd_node \<Rightarrow> lyd_node \<times> int" where
  "build_loop e output rpc_act i t =
     (if i < length output then
        (case build_step e output rpc_act i t of
           (t', failed) \<Rightarrow> if failed then (t', -1) else build_loop e output rpc_act (Suc i) t')
      else (t, 0))"
  by pat_completeness auto
termination
  by (relation "measure (\<lambda>(e, output, rpc_act, i, t). length output - i)") auto

definition build_rpc_act_from_output :: "env \<Rightarrow> lyd_node \<Rightarrow> pos \<Rightarrow> sr_val_t list \<Rightarrow> lyd_node \<times> int" where
  "build_rpc_act_from_output e t rpc_act output =
     (case build_loop e output rpc_act 0 t of
        (t', rc) \<Rightarrow>
          if rc \<noteq> 0 then (t', -1)
          else (case lyd_validate e t' rpc_act of
                  (t'', invalid) \<Rightarrow> if invalid then (t'', -1) else (t'', 0)))"

subsection \<open>op_generic\<close>

text \<open>
  The label \<^verbatim>\<open>error\<close> (lines 212-229): an operation-failed error of the application with
  the last logged message. The buffers freed there are not trees; the store is as it was.
\<close>

definition op_generic_error :: "env \<Rightarrow> state \<Rightarrow> nc_server_reply option \<times> state" where
  "op_generic_error e st =
     (Some (NC_RPL_ERROR (nc_err_set_msg (nc_err NC_ERR_OP_FAILED NC_ERR_TYPE_APP) (np2log_lasterr e))),
      st)"

text \<open>
  Lines 129-152: the array \<open>input\<close>, the count \<open>in_count\<close> and the set \<open>strs\<close> after
  the loop over \<open>node_set\<close>, the descendants of \<open>rpc\<close>, or nothing on \<^verbatim>\<open>goto error\<close>.
  A position of the set always is a node of the tree; the loop has no turn for another.
  The source does not test the results of \<^verbatim>\<open>lyd_find_path\<close> and \<^verbatim>\<open>lyd_path\<close>; the model
  is of the runs in which they are a set and a string.
\<close>

function fill_input ::
  "env \<Rightarrow> lyd_node \<Rightarrow> pos list \<Rightarrow> nat \<Rightarrow> sr_val_t list \<times> nat \<times> string list \<Rightarrow>
   (sr_val_t list \<times> nat \<times> string list) option" where
  "fill_input e t node_set i (input, in_count, strs) =
     (if i < length node_set then
        (case lyd_at t (node_set ! i) of
           None \<Rightarrow> None
         | Some n \<Rightarrow>
             if dflt n then fill_input e t node_set (Suc i) (input, in_count - 1, strs)
             else (case op_set_srval e n (lyd_path e t (node_set ! i)) of
                     None \<Rightarrow> None
                   | Some (v, str) \<Rightarrow>
                       fill_input e t node_set (Suc i)
                         (input[i := v], in_count,
                          (case str of None \<Rightarrow> strs | Some s \<Rightarrow> strs @ [s]))))
      else Some (input, in_count, strs))"
  by pat_completeness auto
termination
  by (relation "measure (\<lambda>(e, t, node_set, i, acc). length node_set - i)") auto

definition op_generic_input ::
  "env \<Rightarrow> lyd_node \<Rightarrow> pos \<Rightarrow> (sr_val_t list \<times> nat \<times> string list) option" where
  "op_generic_input e t rpc =
     (let node_set = lyd_find_path_descendants t rpc; in_count = length node_set in
      if in_count \<noteq> 0 then
        (if calloc_fails e then None
         else fill_input e t node_set 0 (replicate in_count sr_val_zero, in_count, []))
      else Some ([], 0, []))"

text \<open>
  Lines 187-194, the tree in which the reply is built. For an RPC it is a duplicate of the
  node \<open>rpc\<close> alone, in a new cell, and the output is built below its root. For an
  action it is the duplicate \<open>act\<close>, in which \<open>rpc\<close> lies: the children of \<open>rpc\<close> are
  freed and the output is built below \<open>rpc\<close>. The result is \<open>reply_data\<close>, the cell and
  the tree built in, the position of \<open>rpc_act\<close> in it, and the state. The source does not
  test the result of \<^verbatim>\<open>lyd_dup(rpc, 0)\<close>; the model is of the runs in which it is a tree.
\<close>

definition reply_tree ::
  "nat option \<Rightarrow> lyd_ptr \<Rightarrow> state \<Rightarrow> (nat \<times> nat \<times> lyd_node \<times> pos \<times> state) option" where
  "reply_tree act rpc st =
     (case act of
        None \<Rightarrow>
          (case node_at st rpc of
             None \<Rightarrow> None
           | Some n \<Rightarrow>
               (case heap_alloc (lyd_dup n False) st of
                  (reply_data, st1) \<Rightarrow> Some (reply_data, reply_data, lyd_dup n False, [], st1)))
      | Some a \<Rightarrow>
          (case heap_at st (fst rpc) of
             None \<Rightarrow> None
           | Some t \<Rightarrow>
               Some (a, fst rpc, free_children t (snd rpc), snd rpc,
                     heap_put (fst rpc) (free_children t (snd rpc)) st)))"

text \<open>
  Lines 186-207, after sysrepo returned \<^verbatim>\<open>SR_ERR_OK\<close>. \<open>act\<close> is the cell of the
  duplicate made for an action, or NULL for an RPC; \<open>rpc\<close> points to the RPC or action.
  When the tree cannot be built, the tree is freed and the function goes to the label
  \<^verbatim>\<open>srerror\<close>, which returns the reply of \<^verbatim>\<open>op_build_err_sr\<close>.
\<close>

definition op_generic_reply ::
  "env \<Rightarrow> nat option \<Rightarrow> lyd_ptr \<Rightarrow> sr_val_t list \<Rightarrow> state \<Rightarrow> nc_server_reply option \<times> state" where
  "op_generic_reply e act rpc output st =
     (if output \<noteq> [] then
        (case reply_tree act rpc st of
           None \<Rightarrow> (None, st)
         | Some (reply_data, c, t, rpc_act, st1) \<Rightarrow>
             (case build_rpc_act_from_output e t rpc_act output of
                (t', rc) \<Rightarrow>
                  if rc \<noteq> 0
                  then (Some (op_build_err_sr e), lyd_free reply_data (heap_put c t' st1))
                  else (Some (NC_RPL_DATA reply_data (nc_wd e)), heap_put c t' st1)))
      else (Some NC_RPL_OK, (case act of None \<Rightarrow> st | Some a \<Rightarrow> lyd_free a st)))"

text \<open>
  Lines 128-207: the input is converted, the RPC or action is sent, and the code that
  sysrepo returns decides the reply.
\<close>

definition sr_send :: "env \<Rightarrow> bool \<Rightarrow> string \<Rightarrow> sr_val_t list \<Rightarrow> sr_error_t \<times> sr_val_t list" where
  "sr_send e action rpc_xpath vals =
     (if action then sr_action_send e rpc_xpath vals else sr_rpc_send e rpc_xpath vals)"

definition op_generic_send ::
  "env \<Rightarrow> nat option \<Rightarrow> lyd_ptr \<Rightarrow> state \<Rightarrow> nc_server_reply option \<times> state" where
  "op_generic_send e act rpc st =
     (case heap_at st (fst rpc) of
        None \<Rightarrow> (None, st)
      | Some t \<Rightarrow>
          (case op_generic_input e t (snd rpc) of
             None \<Rightarrow> op_generic_error e st
           | Some (input, in_count, strs) \<Rightarrow>
               (case sr_send e (act \<noteq> None) (lyd_path e t (snd rpc)) (take in_count input) of
                  (rc, output) \<Rightarrow>
                    (let st' = st\<lparr>sent := sent st @
                           [\<lparr>call_action = (act \<noteq> None), call_xpath = lyd_path e t (snd rpc),
                             call_input = take in_count input, call_rc = rc\<rparr>]\<rparr> in
                     if rc = SR_ERR_UNKNOWN_MODEL \<or> rc = SR_ERR_NOT_FOUND
                     then (Some (NC_RPL_ERROR (nc_err NC_ERR_OP_NOT_SUPPORTED NC_ERR_TYPE_PROT)), st')
                     else if rc \<noteq> SR_ERR_OK then (Some (op_build_err_sr e), st')
                     else op_generic_reply e act rpc output st'))))"

text \<open>
  The whole function. A pointer \<open>rpc\<close> that does not point to a node of a live tree has
  no defined behaviour in C: the result is then no reply, in an unchanged state.
\<close>

definition op_generic :: "env \<Rightarrow> lyd_ptr \<Rightarrow> state \<Rightarrow> nc_server_reply option \<times> state" where
  "op_generic e rpc st =
     (case node_at st rpc of
        None \<Rightarrow> (None, st)
      | Some n \<Rightarrow>
          (let st1 = (if ds st \<noteq> SR_DS_RUNNING then st\<lparr>ds := SR_DS_RUNNING\<rparr> else st) in
           if nodetype (schema n) \<noteq> LYS_RPC then
             (if lyd_dup_fails e then op_generic_error e st1
              else (case heap_alloc (lyd_dup n True) st1 of
                      (act, st2) \<Rightarrow>
                        (case dfs_action (lyd_dup n True) of
                           None \<Rightarrow> op_generic_error e st2
                         | Some p \<Rightarrow> op_generic_send e (Some act) (act, p) st2)))
           else op_generic_send e None rpc st1))"


subsection \<open>Example trees and an example environment\<close>

text \<open>
  Concrete inputs on which the definitions above are run. The RPC \<open>example_rpc\<close> has
  the leaf \<open>x\<close> at its default and the leaf \<open>y\<close> set to 5. The data tree
  \<open>example_action\<close> holds the action \<open>reset\<close> in the entry \<open>eth0\<close> of the list
  \<open>interface\<close>; \<open>example_reply\<close> is that tree with the output leaf \<open>status\<close>,
  the root and the action flagged as default.
\<close>

definition mk_schema :: "string \<Rightarrow> LYS_NODE \<Rightarrow> lys_node" where
  "mk_schema n k = \<lparr>name = n, nodetype = k, presence = None, keys_size = 0\<rparr>"

definition example_rpc :: lyd_node where
  "example_rpc =
     Lyd_node (mk_schema ''op'' LYS_RPC) False []
       [Lyd_node (mk_schema ''x'' LYS_LEAF) True ''0'' [],
        Lyd_node (mk_schema ''y'' LYS_LEAF) False ''5'' []]"

definition example_action :: lyd_node where
  "example_action =
     Lyd_node (mk_schema ''interfaces'' LYS_CONTAINER) False []
       [Lyd_node ((mk_schema ''interface'' LYS_LIST)\<lparr>keys_size := 1\<rparr>) False []
          [Lyd_node (mk_schema ''name'' LYS_LEAF) False ''eth0'' [],
           Lyd_node (mk_schema ''reset'' LYS_ACTION) False [] []]]"

definition example_reply :: lyd_node where
  "example_reply =
     Lyd_node (mk_schema ''interfaces'' LYS_CONTAINER) True []
       [Lyd_node ((mk_schema ''interface'' LYS_LIST)\<lparr>keys_size := 1\<rparr>) False []
          [Lyd_node (mk_schema ''name'' LYS_LEAF) False ''eth0'' [],
           Lyd_node (mk_schema ''reset'' LYS_ACTION) True []
             [Lyd_node (mk_schema ''status'' LYS_LEAF) False ''done'' []]]]"

text \<open>The path of a node as the names from the root, for the example environment.\<close>

fun path_names :: "lyd_node \<Rightarrow> pos \<Rightarrow> string" where
  "path_names (Lyd_node s d v cs) [] = ''/'' @ name s"
| "path_names (Lyd_node s d v cs) (i # p) =
     ''/'' @ name s @ (if i < length cs then path_names (cs ! i) p else [])"

fun add_child :: "lyd_node \<Rightarrow> pos \<Rightarrow> lyd_node \<Rightarrow> lyd_node" where
  "add_child (Lyd_node s d v cs) [] c = Lyd_node s d v (cs @ [c])"
| "add_child (Lyd_node s d v cs) (i # p) c =
     (if i < length cs then Lyd_node s d v (cs[i := add_child (cs ! i) p c])
      else Lyd_node s d v cs)"

text \<open>
  A stand-in for \<^verbatim>\<open>lyd_new_path\<close>: a record without a path is an error; any other record
  becomes a new last child of \<open>rpc_act\<close>, an anydata node when the value is passed as
  \<^verbatim>\<open>LYD_ANYDATA_SXML\<close> and a leaf otherwise.
\<close>

definition example_new_path ::
  "lyd_node \<Rightarrow> pos \<Rightarrow> string option \<Rightarrow> string \<Rightarrow> LYD_ANYDATA_VALUETYPE \<Rightarrow>
   lyd_node \<times> pos option \<times> bool" where
  "example_new_path t rpc_act xpath val anytype =
     (case xpath of
        None \<Rightarrow> (t, None, True)
      | Some x \<Rightarrow>
          (case lyd_at t rpc_act of
             None \<Rightarrow> (t, None, True)
           | Some n \<Rightarrow>
               (add_child t rpc_act
                  (Lyd_node (mk_schema x (if anytype = LYD_ANYDATA_SXML then LYS_ANYDATA else LYS_LEAF))
                     False val []),
                Some (rpc_act @ [length (children n)]), False)))"

text \<open>
  The environment: sysrepo answers every call with \<open>rc\<close> and \<open>output\<close>, validation
  fails when \<open>invalid\<close> is set, every leaf is converted to a string value.
\<close>

definition example_env :: "sr_error_t \<Rightarrow> sr_val_t list \<Rightarrow> bool \<Rightarrow> env" where
  "example_env rc output invalid =
     \<lparr>lyd_path = path_names,
      lyd_new_path = example_new_path,
      lyd_validate = (\<lambda>t rpc_act. (t, invalid)),
      op_set_srval = (\<lambda>n path.
         Some (\<lparr>sr_xpath = Some path, sr_type = SR_STRING_T, sr_dflt = False,
                sr_data = value_str n\<rparr>, None)),
      op_get_srval = sr_data,
      sr_rpc_send = (\<lambda>rpc_xpath vals. (rc, output)),
      sr_action_send = (\<lambda>rpc_xpath vals. (rc, output)),
      sr_last_error = ''sysrepo: operation failed'',
      np2log_lasterr = ''Internal error'',
      nc_wd = NC_WD_EXPLICIT,
      lyd_dup_fails = False,
      calloc_fails = False\<rparr>"

definition example_state :: "lyd_node \<Rightarrow> state" where
  "example_state t = \<lparr>heap = [Some t], ds = SR_DS_STARTUP, sent = []\<rparr>"

definition sr_string :: "string \<Rightarrow> string \<Rightarrow> bool \<Rightarrow> sr_val_t" where
  "sr_string path val d = \<lparr>sr_xpath = Some path, sr_type = SR_STRING_T, sr_dflt = d, sr_data = val\<rparr>"

definition sr_anydata :: "string \<Rightarrow> string \<Rightarrow> sr_val_t" where
  "sr_anydata path val = \<lparr>sr_xpath = Some path, sr_type = SR_ANYDATA_T, sr_dflt = False, sr_data = val\<rparr>"


section \<open>Properties\<close>

declare go_up.simps [simp del] build_loop.simps [simp del] fill_input.simps [simp del]

subsection \<open>Setting a flag at a position\<close>

lemma lyd_at_set_dflt_None:
  "(lyd_at (set_dflt t p b) q = None) = (lyd_at t q = None)"
proof (induction t p b arbitrary: q rule: set_dflt.induct)
  case (1 s d v cs b)
  then show ?case by (cases q) simp_all
next
  case (2 s d v cs i p b)
  show ?case
  proof (cases q)
    case Nil
    then show ?thesis by simp
  next
    case (Cons j q')
    then show ?thesis using 2 [of q'] by (cases "i = j") (simp_all add: nth_list_update)
  qed
qed

lemma schema_at_set_dflt:
  "schema_at (set_dflt t p b) q = schema_at t q"
  unfolding schema_at_def
proof (induction t p b arbitrary: q rule: set_dflt.induct)
  case (1 s d v cs b)
  then show ?case by (cases q) simp_all
next
  case (2 s d v cs i p b)
  show ?case
  proof (cases q)
    case Nil
    then show ?thesis by simp
  next
    case (Cons j q')
    then show ?thesis using 2 [of q'] by (cases "i = j") (simp_all add: nth_list_update)
  qed
qed

lemma lyd_at_set_dflt_same:
  "lyd_at (set_dflt t p b) p =
     map_option (\<lambda>n. Lyd_node (schema n) b (value_str n) (children n)) (lyd_at t p)"
  by (induction t p b rule: set_dflt.induct) simp_all

lemma dflt_of_lyd_at_set_dflt_other:
  "q \<noteq> p \<Longrightarrow> map_option dflt (lyd_at (set_dflt t p b) q) = map_option dflt (lyd_at t q)"
proof (induction t p b arbitrary: q rule: set_dflt.induct)
  case (1 s d v cs b)
  then show ?case by (cases q) simp_all
next
  case (2 s d v cs i p b)
  show ?case
  proof (cases q)
    case Nil
    then show ?thesis by simp
  next
    case (Cons j q')
    show ?thesis
    proof (cases "i = j")
      case True
      with Cons 2(2) have "q' \<noteq> p" by simp
      then show ?thesis using 2(1) [of q'] Cons True by simp
    next
      case False
      then show ?thesis using Cons by simp
    qed
  qed
qed

lemma dflt_at_set_dflt:
  "dflt_at (set_dflt t p b) q = (if q = p \<and> lyd_at t p \<noteq> None then b else dflt_at t q)"
proof (cases "q = p")
  case True
  then show ?thesis
    by (cases "lyd_at t p") (simp_all add: dflt_at_def lyd_at_set_dflt_same)
next
  case False
  from dflt_of_lyd_at_set_dflt_other [OF False, of t b] show ?thesis
    using False by (auto simp: dflt_at_def split: option.splits)
qed

lemma set_dflt_idem:
  "set_dflt (set_dflt t p b) p b' = set_dflt t p b'"
  by (induction t p b rule: set_dflt.induct) simp_all

lemma set_dflt_commute:
  "p \<noteq> q \<Longrightarrow> set_dflt (set_dflt t p b) q c = set_dflt (set_dflt t q c) p b"
proof (induction t p b arbitrary: q rule: set_dflt.induct)
  case (1 s d v cs b)
  then show ?case by (cases q) simp_all
next
  case (2 s d v cs i p b)
  show ?case
  proof (cases q)
    case Nil
    then show ?thesis by simp
  next
    case (Cons j q')
    show ?thesis
    proof (cases "i = j")
      case True
      with Cons 2 have "p \<noteq> q'" by simp
      then show ?thesis using 2(1) [of q'] Cons True by simp
    next
      case False
      then show ?thesis using Cons by (simp add: list_update_swap)
    qed
  qed
qed

lemma set_dflt_same_value:
  "set_dflt (set_dflt t p b) q b = set_dflt (set_dflt t q b) p b"
  by (cases "p = q") (simp_all add: set_dflt_commute)

subsection \<open>What the walks keep\<close>

lemma shape_set_dflt: "shape (set_dflt t p b) = shape t"
proof (induction t p b rule: set_dflt.induct)
  case (1 s d v cs b)
  show ?case by simp
next
  case (2 s d v cs i p b)
  show ?case
  proof (cases "i < length cs")
    case True
    with 2 have "map shape (cs[i := set_dflt (cs ! i) p b]) = map shape cs"
      by (simp add: map_update list_update_same_conv)
    with True show ?thesis by simp
  next
    case False
    then show ?thesis by simp
  qed
qed

lemma lyd_at_shape: "lyd_at (shape t) p = map_option shape (lyd_at t p)"
proof (induction t p rule: lyd_at.induct)
  case (1 t)
  show ?case by simp
next
  case (2 s d v cs i p)
  then show ?case by simp
qed

lemma go_down_from_shape: "go_down_from (shape t) = go_down_from t"
  by (induction t rule: go_down_from.induct) simp_all

lemma go_down_shape:
  assumes "shape t = shape t'"
  shows "go_down t node = go_down t' node"
proof -
  from assms have eq: "map_option shape (lyd_at t node) = map_option shape (lyd_at t' node)"
    by (metis lyd_at_shape)
  show ?thesis
  proof (cases "lyd_at t node")
    case None
    with eq have "lyd_at t' node = None" by simp
    with None show ?thesis by (simp add: go_down_def)
  next
    case (Some n)
    with eq obtain n' where n': "lyd_at t' node = Some n'" "shape n = shape n'"
      by (cases "lyd_at t' node") auto
    then have "go_down_from n = go_down_from n'" by (metis go_down_from_shape)
    with Some n' show ?thesis by (simp add: go_down_def)
  qed
qed

lemma schema_at_go_up: "schema_at (go_up t iter node) q = schema_at t q"
proof (induction t iter node rule: go_up.induct)
  case (1 t iter node)
  show ?case
  proof (cases "schema_at t iter")
    case None
    then show ?thesis by (simp add: go_up.simps)
  next
    case (Some s)
    show ?thesis
    proof (cases "presence_container s \<or> list_with_keys s \<or> iter = node \<or> parent iter = None")
      case True
      with Some show ?thesis by (auto simp: go_up.simps [of t] schema_at_set_dflt Let_def)
    next
      case False
      then obtain p where p: "parent iter = Some p" by auto
      with False Some 1 [OF Some _ _ refl _ p] show ?thesis
        by (simp add: go_up.simps [of t] schema_at_set_dflt Let_def)
    qed
  qed
qed

lemma shape_go_up: "shape (go_up t iter node) = shape t"
proof (induction t iter node rule: go_up.induct)
  case (1 t iter node)
  show ?case
  proof (cases "schema_at t iter")
    case None
    then show ?thesis by (simp add: go_up.simps)
  next
    case (Some s)
    show ?thesis
    proof (cases "presence_container s \<or> list_with_keys s \<or> iter = node \<or> parent iter = None")
      case True
      with Some show ?thesis by (auto simp: go_up.simps [of t] shape_set_dflt Let_def)
    next
      case False
      then obtain p where p: "parent iter = Some p" by auto
      with False Some 1 [OF Some _ _ refl _ p] show ?thesis
        by (simp add: go_up.simps [of t] shape_set_dflt Let_def)
    qed
  qed
qed


lemma go_up_unfold:
  "go_up t iter node =
     (if schema_at t iter = None \<or> boundary_at t iter then t
      else if iter = node \<or> iter = [] then set_dflt t iter True
      else go_up (set_dflt t iter True) (butlast iter) node)"
  by (subst go_up.simps)
     (auto simp: boundary_at_def parent_def Let_def split: option.splits)

lemma go_up_walk_induct [case_names step]:
  assumes "\<And>t iter node.
     (schema_at t iter \<noteq> None \<Longrightarrow> \<not> boundary_at t iter \<Longrightarrow> iter \<noteq> node \<Longrightarrow> iter \<noteq> [] \<Longrightarrow>
        P (set_dflt t iter True) (butlast iter) node) \<Longrightarrow> P t iter node"
  shows "P t iter node"
proof (induction t iter node rule: go_up.induct)
  case (1 t iter node)
  show ?case
  proof (rule assms)
    assume a: "schema_at t iter \<noteq> None" "\<not> boundary_at t iter" "iter \<noteq> node" "iter \<noteq> []"
    then obtain s where s: "schema_at t iter = Some s" by auto
    with a have "\<not> presence_container s" "\<not> list_with_keys s"
      by (simp_all add: boundary_at_def)
    with 1 [OF s _ _ refl, of "butlast iter"] a
    show "P (set_dflt t iter True) (butlast iter) node"
      by (simp add: parent_def)
  qed
qed

lemma go_up_stop:
  "schema_at t iter = None \<or> boundary_at t iter \<Longrightarrow> go_up t iter node = t"
  by (subst go_up_unfold) simp

lemma go_up_last:
  "\<not> (schema_at t iter = None \<or> boundary_at t iter) \<Longrightarrow> iter = node \<or> iter = [] \<Longrightarrow>
   go_up t iter node = set_dflt t iter True"
  by (subst go_up_unfold) auto

lemma go_up_step:
  "\<not> (schema_at t iter = None \<or> boundary_at t iter) \<Longrightarrow> \<not> (iter = node \<or> iter = []) \<Longrightarrow>
   go_up t iter node = go_up (set_dflt t iter True) (butlast iter) node"
  by (subst go_up_unfold) auto

lemma boundary_at_set_dflt: "boundary_at (set_dflt t p b) q = boundary_at t q"
  by (simp add: boundary_at_def schema_at_set_dflt)

lemma boundary_at_go_up: "boundary_at (go_up t iter node) q = boundary_at t q"
  by (simp add: boundary_at_def schema_at_go_up)

lemma set_dflt_go_up:
  "set_dflt (go_up t iter node) p True = go_up (set_dflt t p True) iter node"
proof (induction t iter node rule: go_up_walk_induct)
  case (step t iter node)
  let ?u = "set_dflt t p True"
  show ?case
  proof (cases "schema_at t iter = None \<or> boundary_at t iter")
    case True
    then have "schema_at ?u iter = None \<or> boundary_at ?u iter"
      by (simp add: schema_at_set_dflt boundary_at_set_dflt)
    with True show ?thesis by (simp add: go_up_stop)
  next
    case stop: False
    then have stop': "\<not> (schema_at ?u iter = None \<or> boundary_at ?u iter)"
      by (simp add: schema_at_set_dflt boundary_at_set_dflt)
    show ?thesis
    proof (cases "iter = node \<or> iter = []")
      case True
      show ?thesis
        by (simp only: go_up_last [OF stop True] go_up_last [OF stop' True]
              set_dflt_same_value [of t p])
    next
      case False
      with stop step have "set_dflt (go_up (set_dflt t iter True) (butlast iter) node) p True =
        go_up (set_dflt (set_dflt t iter True) p True) (butlast iter) node"
        by simp
      then show ?thesis
        by (simp only: go_up_step [OF stop False] go_up_step [OF stop' False]
              set_dflt_same_value [of t p])
    qed
  qed
qed

lemma go_up_idem: "go_up (go_up t iter node) iter node = go_up t iter node"
proof (induction t iter node rule: go_up_walk_induct)
  case (step t iter node)
  show ?case
  proof (cases "schema_at t iter = None \<or> boundary_at t iter")
    case True
    then show ?thesis by (simp add: go_up_stop)
  next
    case stop: False
    let ?t' = "set_dflt t iter True"
    from stop have stop': "\<not> (schema_at ?t' iter = None \<or> boundary_at ?t' iter)"
      by (simp add: schema_at_set_dflt boundary_at_set_dflt)
    show ?thesis
    proof (cases "iter = node \<or> iter = []")
      case True
      show ?thesis
        by (simp only: go_up_last [OF stop True] go_up_last [OF stop' True] set_dflt_idem)
    next
      case False
      let ?r = "go_up ?t' (butlast iter) node"
      have r: "go_up t iter node = ?r" by (rule go_up_step [OF stop False])
      from stop False step have ih: "go_up ?r (butlast iter) node = ?r" by simp
      have fixed: "set_dflt ?r iter True = ?r"
        by (simp add: set_dflt_go_up set_dflt_idem)
      from stop have "\<not> (schema_at ?r iter = None \<or> boundary_at ?r iter)"
        by (simp add: schema_at_go_up boundary_at_go_up schema_at_set_dflt boundary_at_set_dflt)
      from go_up_step [OF this False] have "go_up ?r iter node = go_up (set_dflt ?r iter True) (butlast iter) node" .
      with fixed ih r show ?thesis by simp
    qed
  qed
qed

lemma dflt_at_valid: "dflt_at t p \<Longrightarrow> lyd_at t p \<noteq> None"
  by (cases "lyd_at t p") (simp_all add: dflt_at_def)

lemma dflt_at_set_dflt_False: "\<not> dflt_at (set_dflt t p False) p"
  using dflt_at_valid [of t p] by (auto simp: dflt_at_set_dflt)

lemma shape_go_up_clear: "shape (go_up_clear t it) = shape t"
  by (induction t it rule: go_up_clear.induct) (simp_all add: shape_set_dflt)

lemma dflt_at_go_up_clear_imp: "dflt_at (go_up_clear t it) q \<Longrightarrow> dflt_at t q"
proof (induction t it rule: go_up_clear.induct)
  case (1 t)
  then show ?case by simp
next
  case (2 t iter)
  show ?case
  proof (cases "dflt_at t iter")
    case True
    with 2 have "dflt_at (set_dflt t iter False) q" by simp
    then show ?thesis by (simp add: dflt_at_set_dflt split: if_splits)
  next
    case False
    with 2 show ?thesis by simp
  qed
qed

lemma go_up_clear_idem: "go_up_clear (go_up_clear t it) it = go_up_clear t it"
proof (cases it)
  case None
  then show ?thesis by simp
next
  case (Some p)
  show ?thesis
  proof (cases "dflt_at t p")
    case False
    with Some show ?thesis by simp
  next
    case True
    let ?r = "go_up_clear (set_dflt t p False) (parent p)"
    have "\<not> dflt_at ?r p" using dflt_at_go_up_clear_imp dflt_at_set_dflt_False by blast
    then have "go_up_clear ?r (Some p) = ?r" by simp
    with True Some show ?thesis by simp
  qed
qed

lemma dflt_at_go_up_clear:
  "dflt_at (go_up_clear t (Some p)) q \<longleftrightarrow>
     dflt_at t q \<and> \<not> (prefix q p \<and> (\<forall>r. prefix q r \<and> prefix r p \<longrightarrow> dflt_at t r))"
proof (induction p arbitrary: t rule: rev_induct)
  case Nil
  show ?case
    by (cases "dflt_at t []") (auto simp: parent_def dflt_at_set_dflt dest: dflt_at_valid)
next
  case (snoc x p)
  let ?i = "p @ [x]"
  show ?case
  proof (cases "dflt_at t ?i")
    case False
    then have "\<not> (prefix q ?i \<and> (\<forall>r. prefix q r \<and> prefix r ?i \<longrightarrow> dflt_at t r))"
      by blast
    with False show ?thesis by simp
  next
    case True
    let ?t' = "set_dflt t ?i False"
    have t': "\<And>r. dflt_at ?t' r \<longleftrightarrow> r \<noteq> ?i \<and> dflt_at t r"
      using True by (auto simp: dflt_at_set_dflt dest: dflt_at_valid)
    have "dflt_at (go_up_clear t (Some ?i)) q = dflt_at (go_up_clear ?t' (Some p)) q"
      using True by (simp add: parent_def)
    also have "\<dots> \<longleftrightarrow> dflt_at ?t' q \<and>
        \<not> (prefix q p \<and> (\<forall>r. prefix q r \<and> prefix r p \<longrightarrow> dflt_at ?t' r))"
      by (rule snoc)
    also have "\<dots> \<longleftrightarrow> dflt_at t q \<and>
        \<not> (prefix q ?i \<and> (\<forall>r. prefix q r \<and> prefix r ?i \<longrightarrow> dflt_at t r))"
    proof (cases "q = ?i")
      case True
      have "\<not> prefix ?i p" by (auto simp: prefix_def)
      then have "\<And>r. prefix ?i r \<Longrightarrow> prefix r p \<Longrightarrow> False"
        using prefix_order.trans by blast
      moreover have "\<And>r. prefix ?i r \<Longrightarrow> prefix r ?i \<Longrightarrow> r = ?i"
        using prefix_order.antisym by blast
      ultimately show ?thesis using True \<open>dflt_at t ?i\<close> by (auto simp: t' simp del: prefix_snoc)
    next
      case False
      have a: "prefix q ?i \<longleftrightarrow> prefix q p" using False by (auto simp: prefix_snoc)
      have b: "(\<forall>r. prefix q r \<and> prefix r p \<longrightarrow> dflt_at ?t' r) \<longleftrightarrow>
               (\<forall>r. prefix q r \<and> prefix r ?i \<longrightarrow> dflt_at t r)"
        using True by (auto simp: t' prefix_snoc)
      show ?thesis unfolding a b using False by (simp add: t')
    qed
    finally show ?thesis .
  qed
qed

lemma dflt_at_go_up_mono: "dflt_at t q \<Longrightarrow> dflt_at (go_up t iter node) q"
proof (induction t iter node rule: go_up_walk_induct)
  case (step t iter node)
  show ?case
  proof (cases "schema_at t iter = None \<or> boundary_at t iter")
    case True
    with step.prems show ?thesis by (simp add: go_up_stop)
  next
    case stop: False
    from step.prems have t': "dflt_at (set_dflt t iter True) q"
      by (simp add: dflt_at_set_dflt)
    show ?thesis
    proof (cases "iter = node \<or> iter = []")
      case True
      with t' show ?thesis by (simp only: go_up_last [OF stop True])
    next
      case False
      with stop step.IH t' have "dflt_at (go_up (set_dflt t iter True) (butlast iter) node) q"
        by simp
      then show ?thesis by (simp only: go_up_step [OF stop False])
    qed
  qed
qed

lemma dflt_at_go_up_only:
  "dflt_at (go_up t iter node) q \<Longrightarrow>
   dflt_at t q \<or> (prefix q iter \<and> (\<forall>r. prefix q r \<and> prefix r iter \<longrightarrow> \<not> boundary_at t r))"
proof (induction t iter node rule: go_up_walk_induct)
  case (step t iter node)
  show ?case
  proof (cases "schema_at t iter = None \<or> boundary_at t iter")
    case True
    with step.prems show ?thesis by (simp add: go_up_stop)
  next
    case stop: False
    have self: "\<forall>r. prefix iter r \<and> prefix r iter \<longrightarrow> \<not> boundary_at t r"
      using stop prefix_order.antisym by blast
    show ?thesis
    proof (cases "iter = node \<or> iter = []")
      case True
      from step.prems have "dflt_at (set_dflt t iter True) q"
        by (simp only: go_up_last [OF stop True])
      then have "q = iter \<or> dflt_at t q" by (simp add: dflt_at_set_dflt split: if_splits)
      with self show ?thesis by blast
    next
      case False
      let ?t' = "set_dflt t iter True"
      let ?p = "butlast iter"
      from False have iter: "iter = ?p @ [last iter]" by simp
      from step.prems have "dflt_at (go_up ?t' ?p node) q"
        by (simp only: go_up_step [OF stop False])
      with stop False step.IH
      have "dflt_at ?t' q \<or> (prefix q ?p \<and> (\<forall>r. prefix q r \<and> prefix r ?p \<longrightarrow> \<not> boundary_at ?t' r))"
        by simp
      then show ?thesis
      proof
        assume "dflt_at ?t' q"
        then have "q = iter \<or> dflt_at t q" by (simp add: dflt_at_set_dflt split: if_splits)
        with self show ?thesis by blast
      next
        assume a: "prefix q ?p \<and> (\<forall>r. prefix q r \<and> prefix r ?p \<longrightarrow> \<not> boundary_at ?t' r)"
        have pi: "prefix ?p iter" by (metis iter prefixI)
        have "\<not> boundary_at t r" if r: "prefix q r" "prefix r iter" for r
        proof (cases "r = iter")
          case True
          with stop show ?thesis by simp
        next
          case False
          with r(2) iter have "prefix r ?p" by (metis prefix_snoc)
          with a r(1) show ?thesis by (simp add: boundary_at_set_dflt)
        qed
        moreover from a pi have "prefix q iter" using prefix_order.trans by blast
        ultimately show ?thesis by blast
      qed
    qed
  qed
qed

lemma strict_prefix_snoc_iff: "strict_prefix r (p @ [x]) \<longleftrightarrow> prefix r p"
proof
  assume "strict_prefix r (p @ [x])"
  then have a: "prefix r (p @ [x])" and b: "r \<noteq> p @ [x]"
    unfolding strict_prefix_def by blast+
  from a have "r = p @ [x] \<or> prefix r p" by (simp only: prefix_snoc)
  with b show "prefix r p" by blast
next
  assume a: "prefix r p"
  then have "length r \<le> length p" by (rule prefix_length_le)
  then have "r \<noteq> p @ [x]" by auto
  moreover from a have "prefix r (p @ [x])" by (simp only: prefix_snoc simp_thms)
  ultimately show "strict_prefix r (p @ [x])" unfolding strict_prefix_def by blast
qed

subsection \<open>The walk upwards ends below a presence container or a list with keys\<close>

text \<open>
  C4. Propagation never sets the default flag of a presence container or of a list with
  keys: if such a node is flagged after \<open>propagate_dflt\<close>, it was flagged before. When
  the flag of the record is set and such a node lies on the way from the end of the walk
  downwards to the root, the walk upwards ends there: that node and every node above it
  keep their flags, whatever the flags below.
\<close>

theorem propagation_boundary:
  assumes "boundary_at t b"
  shows "(dflt_at (propagate_dflt t node d) b \<longrightarrow> dflt_at t b) \<and>
         (d \<and> prefix b (go_down t node) \<longrightarrow>
            (\<forall>q. prefix q b \<longrightarrow> dflt_at (propagate_dflt t node d) q = dflt_at t q))"
proof (cases d)
  case False
  then show ?thesis
    using dflt_at_go_up_clear_imp by (auto simp: propagate_dflt_def)
next
  case True
  let ?deep = "go_down t node"
  have only: "dflt_at t q" if "dflt_at (go_up t ?deep node) q" "prefix q b" "prefix b ?deep" for q
    using dflt_at_go_up_only [OF that(1)] that(2,3) assms by blast
  have one: "dflt_at (go_up t ?deep node) b \<longrightarrow> dflt_at t b"
    using dflt_at_go_up_only [of t ?deep node b] assms by blast
  have two: "dflt_at (go_up t ?deep node) q = dflt_at t q" if "prefix q b" "prefix b ?deep" for q
    using only [OF _ that] dflt_at_go_up_mono [of t q ?deep node] by blast
  from True one two show ?thesis by (simp add: propagate_dflt_def)
qed

theorem propagation_boundary_witness:
  "boundary_at example_action [0] \<and> prefix [0] (go_down example_action []) \<and>
   \<not> dflt_at (propagate_dflt example_action [] True) [0] \<and>
   \<not> dflt_at (propagate_dflt example_action [] True) [] \<and>
   dflt_at (propagate_dflt example_action [] True) [0, 0]"
proof -
  have b: "boundary_at example_action [0]" by code_simp
  have p: "prefix [0] (go_down example_action [])" by code_simp
  have n: "\<not> dflt_at example_action [0]" "\<not> dflt_at example_action []" by code_simp+
  have s: "dflt_at (propagate_dflt example_action [] True) [0, 0]" by code_simp
  from propagation_boundary [OF b, of "[]" True] p n
  have "\<not> dflt_at (propagate_dflt example_action [] True) [0]"
       "\<not> dflt_at (propagate_dflt example_action [] True) []"
    by simp_all
  with b p s show ?thesis by simp
qed

subsection \<open>A record that is not default clears the flags of the ancestors\<close>

text \<open>
  C5. For a record whose flag is clear, propagation changes flags only: the flag is
  cleared at every ancestor \<open>q\<close> of the inserted node such that all ancestors from the
  parent of the node up to \<open>q\<close> are flagged, that is, up to the first ancestor that is
  not flagged; every other node, the ancestors above that one among them, keeps its flag.
\<close>

theorem clear_on_non_default:
  "shape (propagate_dflt t node False) = shape t \<and>
   (dflt_at (propagate_dflt t node False) q \<longleftrightarrow>
      dflt_at t q \<and>
      \<not> (strict_prefix q node \<and> (\<forall>r. prefix q r \<and> strict_prefix r node \<longrightarrow> dflt_at t r)))"
proof (cases node rule: rev_cases)
  case Nil
  then show ?thesis by (simp add: propagate_dflt_def parent_def)
next
  case (snoc p x)
  have "propagate_dflt t node False = go_up_clear t (Some p)"
    by (simp add: snoc propagate_dflt_def parent_def)
  then show ?thesis
    by (simp only: shape_go_up_clear dflt_at_go_up_clear snoc strict_prefix_snoc_iff simp_thms)
qed

theorem clear_on_non_default_witness:
  "dflt_at example_reply [0, 1] \<and> \<not> dflt_at example_reply [0] \<and> dflt_at example_reply [] \<and>
   \<not> dflt_at (propagate_dflt example_reply [0, 1, 0] False) [0, 1] \<and>
   dflt_at (propagate_dflt example_reply [0, 1, 0] False) []"
proof -
  have f: "dflt_at example_reply [0, 1]" "\<not> dflt_at example_reply [0]" "dflt_at example_reply []"
    by code_simp+
  have one: "\<forall>r. prefix [0, 1] r \<and> strict_prefix r [0, 1, 0] \<longrightarrow> dflt_at example_reply r"
  proof (intro allI impI)
    fix r :: pos
    assume "prefix [0, 1] r \<and> strict_prefix r [0, 1, 0]"
    then have "prefix [0, 1] r" "prefix r [0, 1]"
      using strict_prefix_snoc_iff [of r "[0, 1]" 0] by simp_all
    then have "r = [0, 1]" by (rule prefix_order.antisym [rotated])
    with f show "dflt_at example_reply r" by simp
  qed
  have two: "\<not> (\<forall>r. prefix [] r \<and> strict_prefix r [0, 1, 0] \<longrightarrow> dflt_at example_reply r)"
  proof
    assume "\<forall>r. prefix [] r \<and> strict_prefix r [0, 1, 0] \<longrightarrow> dflt_at example_reply r"
    then have "dflt_at example_reply [0]" by simp
    with f show False by simp
  qed
  from clear_on_non_default [of example_reply "[0, 1, 0]" "[0, 1]"] one f
  have a: "\<not> dflt_at (propagate_dflt example_reply [0, 1, 0] False) [0, 1]" by simp
  from clear_on_non_default [of example_reply "[0, 1, 0]" "[]"] two f
  have b: "dflt_at (propagate_dflt example_reply [0, 1, 0] False) []" by simp
  from f a b show ?thesis by simp
qed

subsection \<open>Propagation is idempotent\<close>

text \<open>
  C6. Running the propagation a second time with the same node and the same flag on the
  tree that the first run left gives that same tree.
\<close>

theorem propagation_idempotent:
  "propagate_dflt (propagate_dflt t node d) node d = propagate_dflt t node d"
proof (cases d)
  case True
  have "go_down (go_up t (go_down t node) node) node = go_down t node"
    by (rule go_down_shape) (rule shape_go_up)
  with True show ?thesis by (simp add: propagate_dflt_def go_up_idem)
next
  case False
  then show ?thesis by (simp add: propagate_dflt_def go_up_clear_idem)
qed

theorem propagation_idempotent_witness:
  "propagate_dflt (propagate_dflt example_reply [0, 1] True) [0, 1] True =
     propagate_dflt example_reply [0, 1] True \<and>
   propagate_dflt example_reply [0, 1] True \<noteq> example_reply"
proof -
  have "propagate_dflt example_reply [0, 1] True \<noteq> example_reply" by code_simp
  with propagation_idempotent [of example_reply "[0, 1]" True] show ?thesis by simp
qed


subsection \<open>The walk upwards stays below the node it ends at\<close>

text \<open>
  The walk downwards ends at or below \<open>node\<close>, and a position below \<open>node\<close> has a
  parent that is at or below \<open>node\<close>: the walk upwards never asks for the parent of
  the root.
\<close>

lemma go_down_prefix: "prefix node (go_down t node)"
  by (simp add: go_down_def split: option.splits)

lemma parent_below:
  "prefix node iter \<Longrightarrow> iter \<noteq> node \<Longrightarrow> \<exists>p. parent iter = Some p \<and> prefix node p"
  by (cases iter rule: rev_cases) (auto simp: parent_def)

subsection \<open>A record for which no node is returned\<close>

text \<open>
  C10. When \<^verbatim>\<open>lyd_new_path\<close> returns no node for a record and sets no error, the turn
  of the loop for that record leaves the tree as \<^verbatim>\<open>lyd_new_path\<close> left it, with every
  default flag of it, and the loop goes on.
\<close>

theorem no_node_no_propagation:
  assumes "lyd_new_path e t rpc_act (sr_xpath (output ! i)) (op_get_srval e (output ! i))
             (anydata_valuetype output) = (t', None, False)"
  shows "build_step e output rpc_act i t = (t', False)"
  using assms by (simp add: build_step_def)

theorem no_node_no_propagation_witness:
  "lyd_new_path ((example_env SR_ERR_OK [] False)\<lparr>lyd_new_path := \<lambda>t rpc_act xpath val anytype. (t, None, False)\<rparr>)
     example_reply [0, 1] (sr_xpath ([sr_string ''status'' ''done'' True] ! 0))
     (op_get_srval ((example_env SR_ERR_OK [] False)\<lparr>lyd_new_path := \<lambda>t rpc_act xpath val anytype. (t, None, False)\<rparr>)
        ([sr_string ''status'' ''done'' True] ! 0))
     (anydata_valuetype [sr_string ''status'' ''done'' True]) = (example_reply, None, False) \<and>
   build_step ((example_env SR_ERR_OK [] False)\<lparr>lyd_new_path := \<lambda>t rpc_act xpath val anytype. (t, None, False)\<rparr>)
     [sr_string ''status'' ''done'' True] [0, 1] 0 example_reply = (example_reply, False)"
proof -
  let ?e = "(example_env SR_ERR_OK [] False)\<lparr>lyd_new_path := \<lambda>t rpc_act xpath val anytype. (t, None, False)\<rparr>"
  let ?out = "[sr_string ''status'' ''done'' True]"
  have h: "lyd_new_path ?e example_reply [0, 1] (sr_xpath (?out ! 0)) (op_get_srval ?e (?out ! 0))
             (anydata_valuetype ?out) = (example_reply, None, False)"
    by simp
  from no_node_no_propagation [OF h] h show ?thesis by simp
qed

subsection \<open>The backend has no handler\<close>

lemma sent_heap_put [simp]: "sent (heap_put c t st) = sent st"
  by (simp add: heap_put_def)

lemma sent_lyd_free [simp]: "sent (lyd_free c st) = sent st"
  by (simp add: lyd_free_def)

lemma sent_heap_alloc [simp]: "sent (snd (heap_alloc t st)) = sent st"
  by (simp add: heap_alloc_def)

lemma sent_reply_tree:
  "reply_tree act rpc st = Some (reply_data, c, t, rpc_act, st1) \<Longrightarrow> sent st1 = sent st"
  by (auto simp: reply_tree_def heap_alloc_def split: option.splits)

lemma sent_op_generic_reply: "sent (snd (op_generic_reply e act rpc output st)) = sent st"
  by (auto simp: op_generic_reply_def dest: sent_reply_tree split: option.splits prod.splits)

lemma sent_op_generic_error [simp]: "sent (snd (op_generic_error e st)) = sent st"
  by (simp add: op_generic_error_def)

lemma op_generic_send_not_supported:
  assumes "sent (snd (op_generic_send e act rpc st)) = sent st @ [c]"
    and "call_rc c = SR_ERR_UNKNOWN_MODEL \<or> call_rc c = SR_ERR_NOT_FOUND"
  shows "fst (op_generic_send e act rpc st) =
           Some (NC_RPL_ERROR (nc_err NC_ERR_OP_NOT_SUPPORTED NC_ERR_TYPE_PROT))"
proof (cases "heap_at st (fst rpc)")
  case None
  with assms(1) show ?thesis by (simp add: op_generic_send_def)
next
  case (Some t)
  show ?thesis
  proof (cases "op_generic_input e t (snd rpc)")
    case None
    with Some assms(1) show ?thesis by (simp add: op_generic_send_def)
  next
    case inp: (Some r)
    obtain input in_count strs where r: "r = (input, in_count, strs)" by (cases r)
    obtain rc outp where
      call: "sr_send e (act \<noteq> None) (lyd_path e t (snd rpc)) (take in_count input) = (rc, outp)"
      by (cases "sr_send e (act \<noteq> None) (lyd_path e t (snd rpc)) (take in_count input)")
    let ?c = "\<lparr>call_action = (act \<noteq> None), call_xpath = lyd_path e t (snd rpc),
               call_input = take in_count input, call_rc = rc\<rparr>"
    have "sent (snd (op_generic_send e act rpc st)) = sent st @ [?c]"
      using Some inp r call
      by (simp add: op_generic_send_def Let_def sent_op_generic_reply)
    with assms(1) have "c = ?c" by simp
    with assms(2) have "rc = SR_ERR_UNKNOWN_MODEL \<or> rc = SR_ERR_NOT_FOUND" by auto
    then show ?thesis using Some inp r call
      by (auto simp: op_generic_send_def Let_def)
  qed
qed

text \<open>
  C8. Whenever the call of sysrepo that \<open>op_generic\<close> makes returns
  \<^verbatim>\<open>SR_ERR_UNKNOWN_MODEL\<close> or \<^verbatim>\<open>SR_ERR_NOT_FOUND\<close>, the reply is the error
  operation-not-supported of the protocol layer, with no message and no tree.
\<close>

theorem not_supported_reply:
  assumes "sent (snd (op_generic e rpc st)) = sent st @ [c]"
    and "call_rc c = SR_ERR_UNKNOWN_MODEL \<or> call_rc c = SR_ERR_NOT_FOUND"
  shows "fst (op_generic e rpc st) =
           Some (NC_RPL_ERROR \<lparr>err_tag = NC_ERR_OP_NOT_SUPPORTED, err_type = NC_ERR_TYPE_PROT,
                               err_message = None\<rparr>)"
proof (cases "node_at st rpc")
  case None
  with assms(1) show ?thesis by (simp add: op_generic_def)
next
  case (Some n)
  let ?st1 = "if ds st \<noteq> SR_DS_RUNNING then st\<lparr>ds := SR_DS_RUNNING\<rparr> else st"
  have s1: "sent ?st1 = sent st" by simp
  show ?thesis
  proof (cases "nodetype (schema n) \<noteq> LYS_RPC")
    case False
    with Some have eq: "op_generic e rpc st = op_generic_send e None rpc ?st1"
      by (simp add: op_generic_def Let_def)
    from assms(1) have "sent (snd (op_generic_send e None rpc ?st1)) = sent ?st1 @ [c]"
      unfolding eq s1 .
    from op_generic_send_not_supported [OF this assms(2)] show ?thesis
      unfolding eq by (simp add: nc_err_def)
  next
    case True
    show ?thesis
    proof (cases "lyd_dup_fails e \<or> dfs_action (lyd_dup n True) = None")
      case fail: True
      with Some True have "sent (snd (op_generic e rpc st)) = sent st"
        by (auto simp: op_generic_def Let_def heap_alloc_def op_generic_error_def split: prod.splits)
      with assms(1) show ?thesis by simp
    next
      case False
      then obtain p where p: "dfs_action (lyd_dup n True) = Some p" and nf: "\<not> lyd_dup_fails e" by auto
      let ?a = "fst (heap_alloc (lyd_dup n True) ?st1)"
      let ?st2 = "snd (heap_alloc (lyd_dup n True) ?st1)"
      have s2: "sent ?st2 = sent st" by (simp add: heap_alloc_def)
      from Some True p nf
      have eq: "op_generic e rpc st = op_generic_send e (Some ?a) (?a, p) ?st2"
        by (simp add: op_generic_def Let_def split: prod.splits)
      from assms(1) have "sent (snd (op_generic_send e (Some ?a) (?a, p) ?st2)) = sent ?st2 @ [c]"
        unfolding eq s2 .
      from op_generic_send_not_supported [OF this assms(2)] show ?thesis
        unfolding eq by (simp add: nc_err_def)
    qed
  qed
qed

theorem not_supported_reply_witness:
  "sent (snd (op_generic (example_env SR_ERR_NOT_FOUND [] False) (0, []) (example_state example_action))) =
     sent (example_state example_action) @
       [\<lparr>call_action = True, call_xpath = ''/interfaces/interface/reset'', call_input = [],
         call_rc = SR_ERR_NOT_FOUND\<rparr>] \<and>
   fst (op_generic (example_env SR_ERR_NOT_FOUND [] False) (0, []) (example_state example_action)) =
     Some (NC_RPL_ERROR \<lparr>err_tag = NC_ERR_OP_NOT_SUPPORTED, err_type = NC_ERR_TYPE_PROT,
                         err_message = None\<rparr>)"
proof -
  have h: "sent (snd (op_generic (example_env SR_ERR_NOT_FOUND [] False) (0, []) (example_state example_action))) =
     sent (example_state example_action) @
       [\<lparr>call_action = True, call_xpath = ''/interfaces/interface/reset'', call_input = [],
         call_rc = SR_ERR_NOT_FOUND\<rparr>]"
    by code_simp
  from not_supported_reply [OF h] h show ?thesis by simp
qed

subsection \<open>The trees of the caller\<close>

lemma take_heap_put: "n \<le> c \<Longrightarrow> take n (heap (heap_put c t st)) = take n (heap st)"
  by (simp add: heap_put_def)

lemma take_lyd_free: "n \<le> c \<Longrightarrow> take n (heap (lyd_free c st)) = take n (heap st)"
  by (simp add: lyd_free_def)

lemma length_heap_put [simp]: "length (heap (heap_put c t st)) = length (heap st)"
  by (simp add: heap_put_def)

lemma length_lyd_free [simp]: "length (heap (lyd_free c st)) = length (heap st)"
  by (simp add: lyd_free_def)

lemma reply_tree_frame:
  assumes "reply_tree act rpc st = Some (reply_data, c, t, rpc_act, st1)"
    and "n \<le> length (heap st)"
    and "\<forall>a. act = Some a \<longrightarrow> n \<le> a \<and> fst rpc = a"
  shows "take n (heap st1) = take n (heap st) \<and> n \<le> reply_data \<and> n \<le> c"
proof (cases act)
  case None
  with assms(1,2) show ?thesis
    by (auto simp: reply_tree_def heap_alloc_def split: option.splits)
next
  case (Some a)
  with assms(3) have "n \<le> a" "fst rpc = a" by simp_all
  with Some assms(1) show ?thesis
    by (auto simp: reply_tree_def take_heap_put split: option.splits)
qed

lemma op_generic_reply_frame:
  assumes "n \<le> length (heap st)"
    and "\<forall>a. act = Some a \<longrightarrow> n \<le> a \<and> fst rpc = a"
  shows "take n (heap (snd (op_generic_reply e act rpc output st))) = take n (heap st)"
proof (cases "output = []")
  case True
  with assms(2) show ?thesis
    by (cases act) (simp_all add: op_generic_reply_def take_lyd_free)
next
  case False
  show ?thesis
  proof (cases "reply_tree act rpc st")
    case None
    with False show ?thesis by (simp add: op_generic_reply_def)
  next
    case (Some r)
    obtain reply_data c t rpc_act st1 where r: "r = (reply_data, c, t, rpc_act, st1)"
      by (cases r)
    from reply_tree_frame [OF Some [unfolded r] assms]
    have f: "take n (heap st1) = take n (heap st)" "n \<le> reply_data" "n \<le> c" by simp_all
    obtain t' rc where b: "build_rpc_act_from_output e t rpc_act output = (t', rc)"
      by (cases "build_rpc_act_from_output e t rpc_act output")
    from False Some r b f show ?thesis
      by (simp add: op_generic_reply_def take_lyd_free take_heap_put)
  qed
qed

lemma op_generic_send_frame:
  assumes "n \<le> length (heap st)"
    and "\<forall>a. act = Some a \<longrightarrow> n \<le> a \<and> fst rpc = a"
  shows "take n (heap (snd (op_generic_send e act rpc st))) = take n (heap st)"
proof (cases "heap_at st (fst rpc)")
  case None
  then show ?thesis by (simp add: op_generic_send_def)
next
  case (Some t)
  show ?thesis
  proof (cases "op_generic_input e t (snd rpc)")
    case None
    with Some show ?thesis by (simp add: op_generic_send_def op_generic_error_def)
  next
    case inp: (Some r)
    obtain input in_count strs where r: "r = (input, in_count, strs)" by (cases r)
    obtain rc outp where
      call: "sr_send e (act \<noteq> None) (lyd_path e t (snd rpc)) (take in_count input) = (rc, outp)"
      by (cases "sr_send e (act \<noteq> None) (lyd_path e t (snd rpc)) (take in_count input)")
    let ?st' = "st\<lparr>sent := sent st @
                   [\<lparr>call_action = (act \<noteq> None), call_xpath = lyd_path e t (snd rpc),
                     call_input = take in_count input, call_rc = rc\<rparr>]\<rparr>"
    from assms(1) have "n \<le> length (heap ?st')" by simp
    from op_generic_reply_frame [OF this assms(2), of e outp]
    have "take n (heap (snd (op_generic_reply e act rpc outp ?st'))) = take n (heap st)" by simp
    with Some inp r call assms(1) show ?thesis
      by (auto simp: op_generic_send_def Let_def)
  qed
qed

text \<open>
  C7. Every cell of the store that exists when \<open>op_generic\<close> is called, the tree of
  the caller among them, holds after the call what it held before, whatever the reply:
  children are freed, nodes inserted and flags changed in cells allocated by the call.
\<close>

theorem input_tree_not_mutated:
  "take (length (heap st)) (heap (snd (op_generic e rpc st))) = heap st"
proof (cases "node_at st rpc")
  case None
  then show ?thesis by (simp add: op_generic_def)
next
  case (Some n)
  let ?st1 = "if ds st \<noteq> SR_DS_RUNNING then st\<lparr>ds := SR_DS_RUNNING\<rparr> else st"
  have h1: "heap ?st1 = heap st" by simp
  show ?thesis
  proof (cases "nodetype (schema n) \<noteq> LYS_RPC")
    case False
    with Some have eq: "op_generic e rpc st = op_generic_send e None rpc ?st1"
      by (simp add: op_generic_def Let_def)
    have "take (length (heap st)) (heap (snd (op_generic_send e None rpc ?st1))) =
          take (length (heap st)) (heap ?st1)"
      by (rule op_generic_send_frame) (simp_all add: h1)
    then show ?thesis unfolding eq h1 by simp
  next
    case True
    let ?a = "fst (heap_alloc (lyd_dup n True) ?st1)"
    let ?st2 = "snd (heap_alloc (lyd_dup n True) ?st1)"
    have a: "?a = length (heap st)" by (simp add: heap_alloc_def)
    have h2: "take (length (heap st)) (heap ?st2) = heap st" by (simp add: heap_alloc_def)
    show ?thesis
    proof (cases "lyd_dup_fails e")
      case True
      with Some \<open>nodetype (schema n) \<noteq> LYS_RPC\<close> show ?thesis
        by (simp add: op_generic_def Let_def op_generic_error_def)
    next
      case nf: False
      show ?thesis
      proof (cases "dfs_action (lyd_dup n True)")
        case None
        with Some True nf have "snd (op_generic e rpc st) = ?st2"
          by (simp add: op_generic_def Let_def op_generic_error_def split: prod.splits)
        with h2 show ?thesis by simp
      next
        case (Some p)
        with \<open>node_at st rpc = Some n\<close> True nf
        have eq: "op_generic e rpc st = op_generic_send e (Some ?a) (?a, p) ?st2"
          by (simp add: op_generic_def Let_def split: prod.splits)
        have "take (length (heap st)) (heap (snd (op_generic_send e (Some ?a) (?a, p) ?st2))) =
              take (length (heap st)) (heap ?st2)"
          by (rule op_generic_send_frame) (simp_all add: heap_alloc_def)
        with h2 show ?thesis unfolding eq by simp
      qed
    qed
  qed
qed

theorem input_tree_not_mutated_witness:
  "take 1 (heap (snd (op_generic (example_env SR_ERR_OK [sr_string ''status'' ''done'' True] False) (0, [])
      (example_state example_action)))) = [Some example_action] \<and>
   heap_at (snd (op_generic (example_env SR_ERR_OK [sr_string ''status'' ''done'' True] False) (0, [])
      (example_state example_action))) 1 \<noteq> Some example_action"
proof -
  have "heap_at (snd (op_generic (example_env SR_ERR_OK [sr_string ''status'' ''done'' True] False) (0, [])
      (example_state example_action))) 1 \<noteq> Some example_action"
    by code_simp
  with input_tree_not_mutated [of "example_state example_action"
      "example_env SR_ERR_OK [sr_string ''status'' ''done'' True] False" "(0, [])"]
  show ?thesis by (simp add: example_state_def)
qed

subsection \<open>A reply tree that is not valid\<close>

text \<open>
  The reply after a failed validation is the one of the label \<^verbatim>\<open>srerror\<close>, the reply to a
  failure of the backend, and not the operation-failed error of the label \<^verbatim>\<open>error\<close>:
  here validation fails for the reply to \<open>example_rpc\<close>.
\<close>

theorem validation_failure_not_operation_failed:
  "snd (lyd_validate (example_env SR_ERR_OK [sr_string ''y'' ''5'' False] True)
          (add_child (lyd_dup example_rpc False) [] (Lyd_node (mk_schema ''y'' LYS_LEAF) False ''5'' [])) []) \<and>
   fst (op_generic (example_env SR_ERR_OK [sr_string ''y'' ''5'' False] True) (0, [])
          (example_state example_rpc)) =
     Some (NC_RPL_BACKEND_ERROR ''sysrepo: operation failed'') \<and>
   fst (op_generic (example_env SR_ERR_OK [sr_string ''y'' ''5'' False] True) (0, [])
          (example_state example_rpc)) \<noteq>
     Some (NC_RPL_ERROR \<lparr>err_tag = NC_ERR_OP_FAILED, err_type = NC_ERR_TYPE_APP,
                         err_message = Some ''Internal error''\<rparr>)"
  by code_simp

text \<open>
  C3, amended. When the output is inserted without error and \<^verbatim>\<open>lyd_validate\<close> fails on
  the tree built, the reply holds no tree: the reply tree is freed and the reply is the
  one that \<^verbatim>\<open>op_build_err_sr\<close> builds from the errors of the sysrepo session, as for a
  failure of the backend.
\<close>

theorem validation_failure_reply:
  assumes "output \<noteq> []"
    and "reply_tree act rpc st = Some (reply_data, c, t, rpc_act, st1)"
    and "build_loop e output rpc_act 0 t = (t1, 0)"
    and "snd (lyd_validate e t1 rpc_act)"
  shows "fst (op_generic_reply e act rpc output st) = Some (op_build_err_sr e) \<and>
         heap_at (snd (op_generic_reply e act rpc output st)) reply_data = None"
proof -
  from assms(4) have "snd (build_rpc_act_from_output e t rpc_act output) = -1"
    by (cases "lyd_validate e t1 rpc_act") (simp add: build_rpc_act_from_output_def assms(3))
  then obtain t' where "build_rpc_act_from_output e t rpc_act output = (t', -1)"
    by (cases "build_rpc_act_from_output e t rpc_act output") simp
  with assms(1,2) show ?thesis
    by (simp add: op_generic_reply_def lyd_free_def heap_at_def)
qed

theorem validation_failure_reply_witness:
  "[sr_string ''y'' ''5'' False] \<noteq> [] \<and>
   reply_tree None (0, []) (example_state example_rpc) =
     Some (1, 1, lyd_dup example_rpc False, [],
           snd (heap_alloc (lyd_dup example_rpc False) (example_state example_rpc))) \<and>
   build_loop (example_env SR_ERR_OK [sr_string ''y'' ''5'' False] True) [sr_string ''y'' ''5'' False] [] 0
       (lyd_dup example_rpc False) =
     (add_child (lyd_dup example_rpc False) [] (Lyd_node (mk_schema ''y'' LYS_LEAF) False ''5'' []), 0) \<and>
   snd (lyd_validate (example_env SR_ERR_OK [sr_string ''y'' ''5'' False] True)
          (add_child (lyd_dup example_rpc False) [] (Lyd_node (mk_schema ''y'' LYS_LEAF) False ''5'' [])) []) \<and>
   fst (op_generic_reply (example_env SR_ERR_OK [sr_string ''y'' ''5'' False] True) None (0, [])
          [sr_string ''y'' ''5'' False] (example_state example_rpc)) =
     Some (op_build_err_sr (example_env SR_ERR_OK [sr_string ''y'' ''5'' False] True)) \<and>
   heap_at (snd (op_generic_reply (example_env SR_ERR_OK [sr_string ''y'' ''5'' False] True) None (0, [])
          [sr_string ''y'' ''5'' False] (example_state example_rpc))) 1 = None"
proof -
  let ?out = "[sr_string ''y'' ''5'' False]"
  let ?e = "example_env SR_ERR_OK ?out True"
  let ?t1 = "add_child (lyd_dup example_rpc False) [] (Lyd_node (mk_schema ''y'' LYS_LEAF) False ''5'' [])"
  have h1: "?out \<noteq> []" by simp
  have h2: "reply_tree None (0, []) (example_state example_rpc) =
     Some (1, 1, lyd_dup example_rpc False, [],
           snd (heap_alloc (lyd_dup example_rpc False) (example_state example_rpc)))"
    by code_simp
  have h3: "build_loop ?e ?out [] 0 (lyd_dup example_rpc False) = (?t1, 0)"
    by code_simp
  have h4: "snd (lyd_validate ?e ?t1 [])" by code_simp
  from validation_failure_reply [OF h1 h2 h3 h4] h1 h2 h3 h4 show ?thesis by blast
qed

subsection \<open>Where the source departs from its description\<close>

text \<open>
  C1. The loop over the descendants of \<open>rpc\<close> decrements \<open>in_count\<close> for a default
  node but fills \<open>input[i]\<close> at the index of the node in the set. For \<open>example_rpc\<close>,
  whose first leaf is default, the backend is handed one record, which is the zeroed
  record of the skipped leaf \<open>x\<close>; the record of \<open>y\<close> lies behind the count.
\<close>

theorem flat_request_gap:
  "op_generic_input (example_env SR_ERR_OK [] False) example_rpc [] =
     Some ([sr_val_zero, sr_string ''/op/y'' ''5'' False], 1, []) \<and>
   map call_input (sent (snd (op_generic (example_env SR_ERR_OK [] False) (0, [])
      (example_state example_rpc)))) = [[sr_val_zero]]"
  by code_simp

text \<open>
  C2. The value type passed to \<^verbatim>\<open>lyd_new_path\<close> is computed from \<^verbatim>\<open>output->type\<close>,
  the type of the first record, in every turn of the loop: with an anydata record first,
  the string record behind it is inserted as anydata; with a string record first, the
  same record is inserted as a plain value.
\<close>

theorem anydata_type_of_first_record:
  "sr_type ([sr_anydata ''a'' ''<x/>'', sr_string ''b'' ''5'' False] ! 1) = SR_STRING_T \<and>
   anydata_valuetype [sr_anydata ''a'' ''<x/>'', sr_string ''b'' ''5'' False] = LYD_ANYDATA_SXML \<and>
   anydata_valuetype [sr_string ''a'' ''<x/>'' False, sr_string ''b'' ''5'' False] = LYD_ANYDATA_CONSTSTRING \<and>
   fst (build_step (example_env SR_ERR_OK [] False)
          [sr_anydata ''a'' ''<x/>'', sr_string ''b'' ''5'' False] [] 1 (lyd_dup example_rpc False)) =
     add_child (lyd_dup example_rpc False) [] (Lyd_node (mk_schema ''b'' LYS_ANYDATA) False ''5'' []) \<and>
   fst (build_step (example_env SR_ERR_OK [] False)
          [sr_string ''a'' ''<x/>'' False, sr_string ''b'' ''5'' False] [] 1 (lyd_dup example_rpc False)) =
     add_child (lyd_dup example_rpc False) [] (Lyd_node (mk_schema ''b'' LYS_LEAF) False ''5'' [])"
  by code_simp

text \<open>
  C9. When sysrepo returns \<^verbatim>\<open>SR_ERR_NOT_FOUND\<close> for an action, the function returns the
  error without freeing the duplicate \<open>act\<close>: the cell allocated by the call still holds
  the tree. The path without output values frees it.
\<close>

theorem duplicate_not_freed:
  "fst (op_generic (example_env SR_ERR_NOT_FOUND [] False) (0, []) (example_state example_action)) =
     Some (NC_RPL_ERROR \<lparr>err_tag = NC_ERR_OP_NOT_SUPPORTED, err_type = NC_ERR_TYPE_PROT,
                         err_message = None\<rparr>) \<and>
   heap (snd (op_generic (example_env SR_ERR_NOT_FOUND [] False) (0, []) (example_state example_action))) =
     [Some example_action, Some example_action] \<and>
   heap (snd (op_generic (example_env SR_ERR_OK [] False) (0, []) (example_state example_action))) =
     [Some example_action, None]"
  by code_simp

end
